theory Spec2Isabelle
  imports Main "HOL-Library.AList" "HOL-Library.Multiset"
begin

section \<open>The collaborators of minipack\<close>

text \<open>
  minipack.js calls five library operations: \<^verbatim>\<open>fs.readFileSync\<close>,
  \<^verbatim>\<open>babylon.parse\<close>, \<^verbatim>\<open>transformFromAst\<close>, \<^verbatim>\<open>path.dirname\<close> and
  \<^verbatim>\<open>path.join\<close>. They are not code of the bundler; the embedding takes them as the
  fields of an environment. An operation that throws returns \<open>None\<close>. The errors are
  those of the collaborators, the \<^verbatim>\<open>TypeError\<close> of the language, and a value thrown by
  the code of a module when the bundle runs.

  The syntax tree is kept as far as the bundler looks at it: the sequence of the
  program's statements, where an import declaration carries its source string
  (\<^verbatim>\<open>node.source.value\<close>).
\<close>

datatype error = ReadError | ParseError | TransformError | TypeError | Thrown string

datatype node = ImportDeclaration string | Statement string

type_synonym ast = "node list"

record env =
  fs_readFileSync :: "string \<Rightarrow> string option"
  babylon_parse :: "string \<Rightarrow> ast option"
  transformFromAst :: "ast \<Rightarrow> string option"
  path_dirname :: "string \<Rightarrow> string"
  path_join :: "string \<Rightarrow> string \<Rightarrow> string"

section \<open>Assets\<close>

text \<open>
  A plain JavaScript object used as a dictionary from strings to numbers: its own
  properties, in creation order. Assigning to an existing key overwrites the value in
  place, assigning to a new key appends the property. The key \<^verbatim>\<open>__proto__\<close> is not an
  ordinary key: the assignment \<^verbatim>\<open>obj["__proto__"] = n\<close> runs the setter inherited from
  \<^verbatim>\<open>Object.prototype\<close>, which ignores a number and creates no property.
\<close>

type_synonym js_object = "(string \<times> nat) list"

definition set_property :: "js_object \<Rightarrow> string \<Rightarrow> nat \<Rightarrow> js_object" where
  "set_property obj key v =
     (if key = ''__proto__'' then obj else AList.update key v obj)"

definition get_property :: "js_object \<Rightarrow> string \<Rightarrow> nat option" where
  "get_property obj key = map_of obj key"

text \<open>
  The object returned by \<^verbatim>\<open>createAsset\<close> has the fields \<^verbatim>\<open>id\<close>, \<^verbatim>\<open>filename\<close>,
  \<^verbatim>\<open>dependencies\<close> and \<^verbatim>\<open>code\<close>; \<^verbatim>\<open>createGraph\<close> adds \<^verbatim>\<open>mapping\<close> later, so the field
  is optional (\<open>None\<close>: the property does not exist yet). Identities are JavaScript
  numbers counted up from 0 by one; they are modelled as natural numbers.
\<close>

record asset =
  id_asset :: nat
  filename :: string
  dependencies :: "string list"
  code :: string
  mapping :: "js_object option"

text \<open>
  The visitor of \<^verbatim>\<open>traverse\<close>: every import declaration pushes its source string onto
  \<^verbatim>\<open>dependencies\<close>, in program order.
\<close>

fun traverse :: "ast \<Rightarrow> string list \<Rightarrow> string list" where
  "traverse [] deps = deps"
| "traverse (ImportDeclaration source # rest) deps = traverse rest (deps @ [source])"
| "traverse (Statement _ # rest) deps = traverse rest deps"

text \<open>The source strings of the import declarations of a program, as written and in order.\<close>

fun import_strings :: "ast \<Rightarrow> string list" where
  "import_strings [] = []"
| "import_strings (ImportDeclaration source # rest) = source # import_strings rest"
| "import_strings (Statement _ # rest) = import_strings rest"

text \<open>
  \<^verbatim>\<open>createAsset(filename)\<close>, with the global counter \<^verbatim>\<open>ID\<close> passed in and returned. The
  counter is incremented after parsing and before the transformation, so a failing
  transformation leaves it incremented.
\<close>

definition createAsset :: "env \<Rightarrow> string \<Rightarrow> nat \<Rightarrow> (error + asset) \<times> nat" where
  "createAsset E fname ID =
     (case fs_readFileSync E fname of
        None \<Rightarrow> (Inl ReadError, ID)
      | Some content \<Rightarrow>
          (case babylon_parse E content of
             None \<Rightarrow> (Inl ParseError, ID)
           | Some tree \<Rightarrow>
               (let deps = traverse tree [];
                    ident = ID;
                    ID' = ID + 1
                in case transformFromAst E tree of
                     None \<Rightarrow> (Inl TransformError, ID')
                   | Some text \<Rightarrow>
                       (Inr \<lparr>id_asset = ident, filename = fname, dependencies = deps,
                             code = text, mapping = None\<rparr>, ID'))))"

section \<open>The graph builder\<close>

text \<open>
  The body of \<^verbatim>\<open>asset.dependencies.forEach\<close>, for the asset at position \<open>i\<close> of the
  queue. The asset is the object stored in the queue, so the assignment to its mapping
  is an update of the queue at \<open>i\<close>; \<^verbatim>\<open>queue.push(child)\<close> appends. Assigning a property
  of a missing mapping would throw a \<^verbatim>\<open>TypeError\<close>.
\<close>

fun forEach_dependencies ::
  "env \<Rightarrow> nat \<Rightarrow> string \<Rightarrow> string list \<Rightarrow> asset list \<Rightarrow> nat \<Rightarrow> (error + asset list) \<times> nat"
where
  "forEach_dependencies E i dir [] queue ID = (Inr queue, ID)"
| "forEach_dependencies E i dir (relativePath # rest) queue ID =
     (let absolutePath = path_join E dir relativePath
      in case createAsset E absolutePath ID of
           (Inl e, ID') \<Rightarrow> (Inl e, ID')
         | (Inr child, ID') \<Rightarrow>
             (case mapping (queue ! i) of
                None \<Rightarrow> (Inl TypeError, ID')
              | Some m \<Rightarrow>
                  forEach_dependencies E i dir rest
                    (queue[i := (queue ! i)\<lparr>mapping := Some (set_property m relativePath (id_asset child))\<rparr>]
                       @ [child])
                    ID'))"

text \<open>
  The loop \<^verbatim>\<open>for (const asset of queue)\<close>: the array iterator compares its position
  with the current length at every step, so it also visits the assets pushed during
  the loop. The loop need not terminate; not returning is the value \<open>None\<close>.
\<close>

partial_function (option) for_of_queue ::
  "env \<Rightarrow> nat \<Rightarrow> asset list \<Rightarrow> nat \<Rightarrow> ((error + asset list) \<times> nat) option"
where
  "for_of_queue E i queue ID =
     (if i < length queue then
        (let queue1 = queue[i := (queue ! i)\<lparr>mapping := Some []\<rparr>];
             dir = path_dirname E (filename (queue1 ! i))
         in case forEach_dependencies E i dir (dependencies (queue1 ! i)) queue1 ID of
              (Inl e, ID') \<Rightarrow> Some (Inl e, ID')
            | (Inr queue2, ID') \<Rightarrow> for_of_queue E (i + 1) queue2 ID')
      else Some (Inr queue, ID))"

declare for_of_queue.simps [code]

definition createGraph :: "env \<Rightarrow> string \<Rightarrow> nat \<Rightarrow> ((error + asset list) \<times> nat) option" where
  "createGraph E entry ID =
     (case createAsset E entry ID of
        (Inl e, ID') \<Rightarrow> Some (Inl e, ID')
      | (Inr mainAsset, ID') \<Rightarrow> for_of_queue E 0 [mainAsset] ID')"

section \<open>The bundle emitter\<close>

text \<open>
  \<^verbatim>\<open>${mod.id}\<close> converts a number to its decimal digits.
\<close>

definition digit_char :: "nat \<Rightarrow> char" where
  "digit_char d = char_of (48 + d)"

fun string_of_nat :: "nat \<Rightarrow> string" where
  "string_of_nat n =
     (if 10 \<le> n then string_of_nat (n div 10) @ [digit_char (n mod 10)]
      else [digit_char n])"

declare string_of_nat.simps [simp del]

text \<open>
  \<^verbatim>\<open>JSON.stringify\<close> on a string: the string between double quotes, with the double
  quote, the backslash and the control characters escaped.
\<close>

definition hex_digit :: "nat \<Rightarrow> char" where
  "hex_digit n = (if n < 10 then char_of (48 + n) else char_of (87 + n))"

definition quote_char :: "char \<Rightarrow> string" where
  "quote_char c =
     (if c = CHR 0x08 then [CHR 0x5C, CHR ''b'']
      else if c = CHR 0x09 then [CHR 0x5C, CHR ''t'']
      else if c = CHR 0x0A then [CHR 0x5C, CHR ''n'']
      else if c = CHR 0x0C then [CHR 0x5C, CHR ''f'']
      else if c = CHR 0x0D then [CHR 0x5C, CHR ''r'']
      else if c = CHR 0x22 then [CHR 0x5C, CHR 0x22]
      else if c = CHR 0x5C then [CHR 0x5C, CHR 0x5C]
      else if (of_char c :: nat) < 32 then
        [CHR 0x5C, CHR ''u'', CHR ''0'', CHR ''0'',
         hex_digit (of_char c div 16), hex_digit (of_char c mod 16)]
      else [c])"

definition quote :: "string \<Rightarrow> string" where
  "quote s = [CHR 0x22] @ concat (map quote_char s) @ [CHR 0x22]"

text \<open>
  The order in which \<^verbatim>\<open>JSON.stringify\<close> lists the properties of an object: the keys
  that are array indices (canonical decimal numerals up to \<open>2^32 - 2\<close>) in ascending
  numeric order, then the other keys in creation order.
\<close>

definition int_of_decimal :: "string \<Rightarrow> int" where
  "int_of_decimal s = foldl (\<lambda>n c. 10 * n + (of_char c - 48)) 0 s"

definition array_index :: "string \<Rightarrow> int option" where
  "array_index s =
     (if s \<noteq> [] \<and> list_all (\<lambda>c. 48 \<le> (of_char c :: nat) \<and> (of_char c :: nat) \<le> 57) s
         \<and> (s = ''0'' \<or> hd s \<noteq> CHR ''0'') \<and> int_of_decimal s \<le> 4294967294
      then Some (int_of_decimal s) else None)"

definition own_properties :: "js_object \<Rightarrow> js_object" where
  "own_properties obj =
     sort_key (\<lambda>(k, v). case array_index k of Some n \<Rightarrow> n | None \<Rightarrow> 0)
       (filter (\<lambda>(k, v). array_index k \<noteq> None) obj)
     @ filter (\<lambda>(k, v). array_index k = None) obj"

fun intercalate :: "string \<Rightarrow> string list \<Rightarrow> string" where
  "intercalate sep [] = []"
| "intercalate sep [x] = x"
| "intercalate sep (x # y # ys) = x @ sep @ intercalate sep (y # ys)"

definition stringify_property :: "string \<times> nat \<Rightarrow> string" where
  "stringify_property p = quote (fst p) @ '':'' @ string_of_nat (snd p)"

text \<open>
  \<^verbatim>\<open>${JSON.stringify(mod.mapping)}\<close>: \<^verbatim>\<open>JSON.stringify(undefined)\<close> is \<^verbatim>\<open>undefined\<close>,
  which the template literal prints as the word.
\<close>

definition JSON_stringify :: "js_object option \<Rightarrow> string" where
  "JSON_stringify mp =
     (case mp of
        None \<Rightarrow> ''undefined''
      | Some obj \<Rightarrow> ''{'' @ intercalate '','' (map stringify_property (own_properties obj)) @ ''}'')"

text \<open>The template literal appended to \<^verbatim>\<open>modules\<close> for one asset.\<close>

definition module_entry :: "asset \<Rightarrow> string" where
  "module_entry md =
     string_of_nat (id_asset md) @ '': ['' @ [CHR 0x0A]
     @ ''      function (require, module, exports) {'' @ [CHR 0x0A]
     @ ''        '' @ code md @ [CHR 0x0A]
     @ ''      },'' @ [CHR 0x0A]
     @ ''      '' @ JSON_stringify (mapping md) @ '','' @ [CHR 0x0A]
     @ ''    ],''"

text \<open>
  The text of the loader before \<^verbatim>\<open>${modules}\<close>: the function with the definition of
  \<^verbatim>\<open>require\<close>, then the call \<^verbatim>\<open>require(0)\<close> that ends its body, then the opening of the
  argument. After \<^verbatim>\<open>${modules}\<close> the argument is closed.
\<close>

definition loader_require_text :: string where
  "loader_require_text =
     [CHR 0x0A]
     @ ''    (function(modules) {'' @ [CHR 0x0A]
     @ ''      function require(id) {'' @ [CHR 0x0A]
     @ ''        const [fn, mapping] = modules[id];'' @ [CHR 0x0A]
     @ [CHR 0x0A]
     @ ''        function localRequire(name) {'' @ [CHR 0x0A]
     @ ''          return require(mapping[name]);'' @ [CHR 0x0A]
     @ ''        }'' @ [CHR 0x0A]
     @ [CHR 0x0A]
     @ ''        const module = { exports : {} };'' @ [CHR 0x0A]
     @ [CHR 0x0A]
     @ ''        fn(localRequire, module, module.exports);'' @ [CHR 0x0A]
     @ [CHR 0x0A]
     @ ''        return module.exports;'' @ [CHR 0x0A]
     @ ''      }'' @ [CHR 0x0A]
     @ [CHR 0x0A]"

definition loader_text :: string where
  "loader_text = loader_require_text @ ''      require(0);'' @ [CHR 0x0A] @ ''    })({''"

definition loader_end :: string where
  "loader_end = ''})'' @ [CHR 0x0A] @ ''  ''"

text \<open>
  \<^verbatim>\<open>bundle(graph)\<close> (the name \<open>bundle\<close> is a keyword of Isabelle, hence
  \<open>bundle_graph\<close>): \<^verbatim>\<open>graph.forEach\<close> appends one entry per asset to \<^verbatim>\<open>modules\<close>,
  which starts empty; the result is the loader text around it.
\<close>

fun forEach_graph :: "asset list \<Rightarrow> string \<Rightarrow> string" where
  "forEach_graph [] modules = modules"
| "forEach_graph (md # rest) modules = forEach_graph rest (modules @ module_entry md)"

definition bundle_graph :: "asset list \<Rightarrow> string" where
  "bundle_graph graph = (let modules = forEach_graph graph [] in loader_text @ modules @ loader_end)"

section \<open>The script\<close>

text \<open>
  The last four lines of the file: build the graph, print it, bundle it, print the
  bundle. The counter starts at 0 when the file is loaded. An exception of
  \<^verbatim>\<open>createGraph\<close> ends the script before anything is printed.
\<close>

datatype console_output = LogGraph "asset list" | LogText string

definition run_script :: "env \<Rightarrow> string \<Rightarrow> ((error + unit) \<times> console_output list) option" where
  "run_script E entry =
     (case createGraph E entry 0 of
        None \<Rightarrow> None
      | Some (Inl e, ID) \<Rightarrow> Some (Inl e, [])
      | Some (Inr graph, ID) \<Rightarrow>
          (let result = bundle_graph graph in Some (Inr (), [LogGraph graph, LogText result])))"

definition main :: "env \<Rightarrow> ((error + unit) \<times> console_output list) option" where
  "main E = run_script E ''./example/entry.js''"

section \<open>The loader of the emitted bundle\<close>

text \<open>
  The loader is JavaScript text inside \<^verbatim>\<open>bundle\<close>; this is what it does when the
  bundle runs. A value is a reference to an object or anything else. The wrapped
  function of a module is given by its behaviour towards the loader: it returns,
  leaving a value in \<^verbatim>\<open>module.exports\<close>; or it throws; or it calls the import function
  it received with a name and goes on with the outcome of that call (the value
  returned, or the exception, which it may catch). The behaviour may depend on the
  \<^verbatim>\<open>exports\<close> object passed in: a body that never assigns \<^verbatim>\<open>module.exports\<close> returns
  that reference.
\<close>

datatype js_value = ObjectRef nat | Primitive string

datatype behaviour =
    Return js_value
  | Throw error
  | CallRequire string "error + js_value \<Rightarrow> behaviour"

type_synonym module_table = "nat \<Rightarrow> ((nat \<Rightarrow> behaviour) \<times> js_object) option"

text \<open>
  The state of a run: the next free object reference, and a log of the calls of
  \<^verbatim>\<open>require\<close> with an identity (\<open>Required\<close>) and of the calls of a wrapped function
  (\<open>Executed\<close>, with the reference of the exports object made for the call).
\<close>

datatype event = Required nat | Executed nat nat

record run_state =
  heap_next :: nat
  trace :: "event list"

text \<open>
  \<^verbatim>\<open>require(id)\<close>: destructuring \<^verbatim>\<open>modules[id]\<close> throws a \<^verbatim>\<open>TypeError\<close> when the table
  has no such entry; otherwise a new object \<^verbatim>\<open>{ exports : {} }\<close> is made (two
  allocations, the exports object first), the wrapped function is called, and what
  \<^verbatim>\<open>module.exports\<close> holds at the end is returned. \<^verbatim>\<open>localRequire(name)\<close> is
  \<^verbatim>\<open>require(mapping[name])\<close>; for a name that is no key of the mapping the argument is
  no identity, the table has no entry for it and the call throws. The recursion need
  not end (a module may require itself), so both functions take fuel and return
  \<open>None\<close> when it runs out.
\<close>

fun require :: "nat \<Rightarrow> module_table \<Rightarrow> nat \<Rightarrow> run_state \<Rightarrow> ((error + js_value) \<times> run_state) option"
and call_fn :: "nat \<Rightarrow> module_table \<Rightarrow> js_object \<Rightarrow> behaviour \<Rightarrow> run_state \<Rightarrow> ((error + js_value) \<times> run_state) option"
where
  "require 0 modules ident st = None"
| "require (Suc fuel) modules ident st =
     (let st1 = st\<lparr>trace := trace st @ [Required ident]\<rparr>
      in case modules ident of
           None \<Rightarrow> Some (Inl TypeError, st1)
         | Some (fn, mp) \<Rightarrow>
             (let exports = heap_next st1;
                  st2 = st1\<lparr>heap_next := heap_next st1 + 2,
                            trace := trace st1 @ [Executed ident exports]\<rparr>
              in call_fn fuel modules mp (fn exports) st2))"
| "call_fn 0 modules mp body st = None"
| "call_fn (Suc fuel) modules mp (Return v) st = Some (Inr v, st)"
| "call_fn (Suc fuel) modules mp (Throw e) st = Some (Inl e, st)"
| "call_fn (Suc fuel) modules mp (CallRequire name k) st =
     (case get_property mp name of
        None \<Rightarrow> call_fn fuel modules mp (k (Inl TypeError)) st
      | Some ident \<Rightarrow>
          (case require fuel modules ident st of
             None \<Rightarrow> None
           | Some (outcome, st') \<Rightarrow> call_fn fuel modules mp (k outcome) st'))"

text \<open>The body of the loader: define \<^verbatim>\<open>require\<close>, then \<^verbatim>\<open>require(0)\<close>.\<close>

definition run_bundle :: "nat \<Rightarrow> module_table \<Rightarrow> ((error + js_value) \<times> run_state) option" where
  "run_bundle fuel modules = require fuel modules 0 \<lparr>heap_next = 0, trace = []\<rparr>"

section \<open>Notions used in the statements\<close>

text \<open>
  A relative import string starts with \<^verbatim>\<open>./\<close> or \<^verbatim>\<open>../\<close>.
\<close>

definition is_relative_import :: "string \<Rightarrow> bool" where
  "is_relative_import r = (take 2 r = ''./'' \<or> take 3 r = ''../'')"

text \<open>The path \<^verbatim>\<open>createGraph\<close> builds for the import string \<open>r\<close> of the asset \<open>a\<close>.\<close>

definition resolve :: "env \<Rightarrow> asset \<Rightarrow> string \<Rightarrow> string" where
  "resolve E a r = path_join E (path_dirname E (filename a)) r"

text \<open>Reading the mapping of an asset at a key.\<close>

definition mapping_lookup :: "asset \<Rightarrow> string \<Rightarrow> nat option" where
  "mapping_lookup a key = (case mapping a of None \<Rightarrow> None | Some m \<Rightarrow> get_property m key)"

text \<open>
  The asset was built from its file: its dependencies and its code are what the
  collaborators give for the file.
\<close>

definition built_from :: "env \<Rightarrow> asset \<Rightarrow> bool" where
  "built_from E a =
     (case fs_readFileSync E (filename a) of
        None \<Rightarrow> False
      | Some content \<Rightarrow>
          (case babylon_parse E content of
             None \<Rightarrow> False
           | Some tree \<Rightarrow>
               dependencies a = traverse tree [] \<and> transformFromAst E tree = Some (code a)))"

text \<open>
  The mapping after the loop over the dependencies \<open>ds\<close>, when the children get the
  identities \<open>n\<close>, \<open>n + 1\<close>, ...; and the position of the last occurrence of a key
  in a list.
\<close>

fun record_children :: "js_object \<Rightarrow> string list \<Rightarrow> nat \<Rightarrow> js_object" where
  "record_children m [] n = m"
| "record_children m (r # rs) n = record_children (set_property m r n) rs (Suc n)"

fun last_pos :: "string list \<Rightarrow> string \<Rightarrow> nat" where
  "last_pos [] key = 0"
| "last_pos (x # xs) key = (if key \<in> set xs then Suc (last_pos xs key) else 0)"

text \<open>
  The position in the queue of the first child of the asset at position \<open>i\<close>: the
  entry, then the children of the assets before \<open>i\<close>.
\<close>

definition offset :: "asset list \<Rightarrow> nat \<Rightarrow> nat" where
  "offset q i = 1 + sum_list (map (\<lambda>a. length (dependencies a)) (take i q))"

text \<open>
  The asset at position \<open>j\<close> has been expanded: its mapping is filled, and its
  children are in the queue, one per dependency, in order.
\<close>

definition expanded :: "env \<Rightarrow> nat \<Rightarrow> asset list \<Rightarrow> nat \<Rightarrow> bool" where
  "expanded E ID0 q j =
     (mapping (q ! j) = Some (record_children [] (dependencies (q ! j)) (ID0 + offset q j))
      \<and> (\<forall>k<length (dependencies (q ! j)).
             offset q j + k < length q
             \<and> filename (q ! (offset q j + k)) = resolve E (q ! j) (dependencies (q ! j) ! k)))"

text \<open>The invariant of the loop of \<^verbatim>\<open>createGraph\<close>, started with the counter at \<open>ID0\<close>.\<close>

definition graph_inv :: "env \<Rightarrow> string \<Rightarrow> nat \<Rightarrow> nat \<Rightarrow> asset list \<Rightarrow> nat \<Rightarrow> bool" where
  "graph_inv E entry ID0 i q ID =
     (i \<le> length q \<and> length q = offset q i \<and> ID = ID0 + length q
      \<and> map id_asset q = [ID0..<ID0 + length q]
      \<and> filename (q ! 0) = entry
      \<and> (\<forall>a\<in>set q. built_from E a)
      \<and> (\<forall>j<i. expanded E ID0 q j))"






section \<open>An example project\<close>

text \<open>
  Files in one directory: \<^verbatim>\<open>entry.js\<close> imports \<^verbatim>\<open>./a.js\<close> and \<^verbatim>\<open>./b.js\<close>, both
  import \<^verbatim>\<open>./d.js\<close>, which imports \<^verbatim>\<open>./t.js\<close>. A sixth file, \<^verbatim>\<open>twice.js\<close>, imports
  \<^verbatim>\<open>./t.js\<close> in two declarations. In one directory, \<^verbatim>\<open>path.dirname\<close> of a
  file name is \<^verbatim>\<open>.\<close> and \<^verbatim>\<open>path.join\<close> removes the leading \<^verbatim>\<open>./\<close>. The content of a
  file is named by its path, the parser gives the statements of the file, and the
  transformation writes every import as a call of \<^verbatim>\<open>require\<close>.
\<close>

definition example_files :: "string \<Rightarrow> ast option" where
  "example_files p =
     (if p = ''entry.js'' then Some [ImportDeclaration ''./a.js'', ImportDeclaration ''./b.js'', Statement ''run()'']
      else if p = ''a.js'' then Some [ImportDeclaration ''./d.js'']
      else if p = ''b.js'' then Some [ImportDeclaration ''./d.js'']
      else if p = ''d.js'' then Some [ImportDeclaration ''./t.js'']
      else if p = ''t.js'' then Some [Statement ''done()'']
      else if p = ''twice.js'' then Some [ImportDeclaration ''./t.js'', ImportDeclaration ''./t.js'']
      else None)"

definition example_env :: env where
  "example_env =
     \<lparr>fs_readFileSync = (\<lambda>p. case example_files p of None \<Rightarrow> None | Some t \<Rightarrow> Some p),
      babylon_parse = example_files,
      transformFromAst = (\<lambda>t. Some (concat (map (\<lambda>n. case n of ImportDeclaration s \<Rightarrow> ''require('' @ s @ '');'' | Statement s \<Rightarrow> s @ '';'') t))),
      path_dirname = (\<lambda>p. ''.''),
      path_join = (\<lambda>d r. if take 2 r = ''./'' then drop 2 r else r)\<rparr>"

text \<open>The graphs of \<^verbatim>\<open>entry.js\<close> and of \<^verbatim>\<open>twice.js\<close>, with the counter started at 0.\<close>

definition example_graph :: "asset list" where
  "example_graph =
     [\<lparr>id_asset = 0, filename = ''entry.js'', dependencies = [''./a.js'', ''./b.js''],
        code = ''require(./a.js);require(./b.js);run();'',
        mapping = Some [(''./a.js'', 1), (''./b.js'', 2)]\<rparr>,
      \<lparr>id_asset = 1, filename = ''a.js'', dependencies = [''./d.js''],
        code = ''require(./d.js);'', mapping = Some [(''./d.js'', 3)]\<rparr>,
      \<lparr>id_asset = 2, filename = ''b.js'', dependencies = [''./d.js''],
        code = ''require(./d.js);'', mapping = Some [(''./d.js'', 4)]\<rparr>,
      \<lparr>id_asset = 3, filename = ''d.js'', dependencies = [''./t.js''],
        code = ''require(./t.js);'', mapping = Some [(''./t.js'', 5)]\<rparr>,
      \<lparr>id_asset = 4, filename = ''d.js'', dependencies = [''./t.js''],
        code = ''require(./t.js);'', mapping = Some [(''./t.js'', 6)]\<rparr>,
      \<lparr>id_asset = 5, filename = ''t.js'', dependencies = [],
        code = ''done();'', mapping = Some []\<rparr>,
      \<lparr>id_asset = 6, filename = ''t.js'', dependencies = [],
        code = ''done();'', mapping = Some []\<rparr>]"

definition twice_graph :: "asset list" where
  "twice_graph =
     [\<lparr>id_asset = 0, filename = ''twice.js'', dependencies = [''./t.js'', ''./t.js''],
        code = ''require(./t.js);require(./t.js);'', mapping = Some [(''./t.js'', 2)]\<rparr>,
      \<lparr>id_asset = 1, filename = ''t.js'', dependencies = [],
        code = ''done();'', mapping = Some []\<rparr>,
      \<lparr>id_asset = 2, filename = ''t.js'', dependencies = [],
        code = ''done();'', mapping = Some []\<rparr>]"

section \<open>Notions used in the statements about the loader\<close>

text \<open>
  A log is paired when every call of \<^verbatim>\<open>require\<close> with an identity of the table is
  followed at once by the execution of the body of that module, and no body is
  executed otherwise.
\<close>

fun paired :: "module_table \<Rightarrow> event list \<Rightarrow> bool" where
  "paired M [] = True"
| "paired M (Executed k e # rest) = False"
| "paired M (Required k # rest) =
     (case M k of
        None \<Rightarrow> paired M rest
      | Some entry \<Rightarrow>
          (case rest of
             Executed k' e # rest' \<Rightarrow> k' = k \<and> paired M rest'
           | _ \<Rightarrow> False))"

fun executions :: "nat \<Rightarrow> event list \<Rightarrow> nat" where
  "executions k [] = 0"
| "executions k (Executed k' e # rest) = (if k' = k then 1 else 0) + executions k rest"
| "executions k (Required k' # rest) = executions k rest"

fun requirings :: "nat \<Rightarrow> event list \<Rightarrow> nat" where
  "requirings k [] = 0"
| "requirings k (Required k' # rest) = (if k' = k then 1 else 0) + requirings k rest"
| "requirings k (Executed k' e # rest) = requirings k rest"

text \<open>
  A table of three modules with the mappings of the graph of \<^verbatim>\<open>twice.js\<close>: the body of
  module 0 calls \<^verbatim>\<open>require\<close> for \<^verbatim>\<open>./t.js\<close> twice, as the code of the example
  transformation says, and returns its exports object; the bodies of the modules 1
  and 2 return theirs.
\<close>

definition twice_table :: module_table where
  "twice_table ident =
     (if ident = 0 then
        Some (\<lambda>exports. CallRequire ''./t.js'' (\<lambda>_. CallRequire ''./t.js'' (\<lambda>_. Return (ObjectRef exports))),
              [(''./t.js'', 2)])
      else if ident = 1 then Some (\<lambda>exports. Return (ObjectRef exports), [])
      else if ident = 2 then Some (\<lambda>exports. Return (ObjectRef exports), [])
      else None)"

text \<open>The log of the run of that bundle.\<close>

definition twice_trace :: "event list" where
  "twice_trace =
     [Required 0, Executed 0 0, Required 2, Executed 2 2, Required 2, Executed 2 4]"

section \<open>The asset builder\<close>

lemma traverse_acc: "traverse tree acc = acc @ import_strings tree"
  by (induction tree acc rule: traverse.induct) simp_all

lemma createAsset_Inr:
  assumes "createAsset E p ID = (Inr a, ID')"
  shows "ID' = Suc ID \<and> id_asset a = ID \<and> filename a = p \<and> mapping a = None \<and> built_from E a"
  using assms
  by (auto simp: createAsset_def built_from_def Let_def split: option.splits)

text \<open>
  C8. For a path whose file can be read, parsed and transformed, \<^verbatim>\<open>createAsset\<close>
  returns an asset whose dependencies are the import strings of the source as written
  and in order (not resolved, repetitions kept), whose code is the transformed text,
  whose identity is the value of the counter, which is then advanced, and which has no
  mapping yet.
\<close>

theorem createAsset_builds_asset:
  assumes "fs_readFileSync E p = Some content"
    and "babylon_parse E content = Some tree"
    and "transformFromAst E tree = Some text"
  shows "createAsset E p ID =
           (Inr \<lparr>id_asset = ID, filename = p, dependencies = import_strings tree,
                 code = text, mapping = None\<rparr>, Suc ID)"
  using assms by (simp add: createAsset_def traverse_acc)

theorem createAsset_builds_asset_witness:
  "createAsset example_env ''entry.js'' 0 =
     (Inr \<lparr>id_asset = 0, filename = ''entry.js'', dependencies = [''./a.js'', ''./b.js''],
           code = ''require(./a.js);require(./b.js);run();'', mapping = None\<rparr>, Suc 0)"
proof -
  let ?tree = "[ImportDeclaration ''./a.js'', ImportDeclaration ''./b.js'', Statement ''run()'']"
  have r: "fs_readFileSync example_env ''entry.js'' = Some ''entry.js''"
    by (simp add: example_env_def example_files_def)
  have p: "babylon_parse example_env ''entry.js'' = Some ?tree"
    by (simp add: example_env_def example_files_def)
  have t: "transformFromAst example_env ?tree = Some ''require(./a.js);require(./b.js);run();''"
    by (simp add: example_env_def)
  from createAsset_builds_asset [OF r p t, of 0] show ?thesis by simp
qed

section \<open>The graph builder: the loop invariant\<close>

lemma forEach_Inr:
  assumes "forEach_dependencies E i dir ds q ID = (Inr q', ID')"
    and "i < length q" and "mapping (q ! i) = Some m"
  shows "\<exists>children. q' = q[i := (q ! i)\<lparr>mapping := Some (record_children m ds ID)\<rparr>] @ children
           \<and> length children = length ds \<and> ID' = ID + length ds
           \<and> (\<forall>k<length ds. createAsset E (path_join E dir (ds ! k)) (ID + k) = (Inr (children ! k), Suc (ID + k)))"
  using assms
proof (induction ds arbitrary: q ID m)
  case Nil
  from Nil.prems(3) have "(q ! i)\<lparr>mapping := Some m\<rparr> = q ! i" by simp
  then have "q[i := (q ! i)\<lparr>mapping := Some m\<rparr>] = q" by simp
  moreover from Nil.prems(1) have "q' = q" "ID' = ID" by simp_all
  ultimately show ?case by simp
next
  case (Cons r rest)
  from Cons.prems(1) obtain child ID1 where
    c: "createAsset E (path_join E dir r) ID = (Inr child, ID1)"
    by (auto simp: Let_def split: prod.splits sum.splits)
  from createAsset_Inr[OF c] have id1: "ID1 = Suc ID" and idc: "id_asset child = ID" by auto
  let ?a = "(q ! i)\<lparr>mapping := Some (set_property m r ID)\<rparr>"
  let ?q1 = "q[i := ?a] @ [child]"
  from Cons.prems c idc id1 have rec: "forEach_dependencies E i dir rest ?q1 (Suc ID) = (Inr q', ID')"
    by (simp add: Let_def)
  have i1: "i < length ?q1" using Cons.prems(2) by simp
  have m1: "mapping (?q1 ! i) = Some (set_property m r ID)"
    using Cons.prems(2) by (simp add: nth_append)
  from Cons.IH[OF rec i1 m1] obtain children where
    ch: "q' = ?q1[i := (?q1 ! i)\<lparr>mapping := Some (record_children (set_property m r ID) rest (Suc ID))\<rparr>] @ children"
      "length children = length rest" "ID' = Suc ID + length rest"
      "\<forall>k<length rest. createAsset E (path_join E dir (rest ! k)) (Suc ID + k) = (Inr (children ! k), Suc (Suc ID + k))"
    by blast
  have q'eq: "q' = q[i := (q ! i)\<lparr>mapping := Some (record_children m (r # rest) ID)\<rparr>] @ (child # children)"
    using ch(1) Cons.prems(2) by (simp add: nth_append list_update_append1)
  have "\<forall>k<length (r # rest). createAsset E (path_join E dir ((r # rest) ! k)) (ID + k) = (Inr ((child # children) ! k), Suc (ID + k))"
  proof (intro allI impI)
    fix k assume "k < length (r # rest)"
    then show "createAsset E (path_join E dir ((r # rest) ! k)) (ID + k) = (Inr ((child # children) ! k), Suc (ID + k))"
      using c id1 ch(4) by (cases k) auto
  qed
  with q'eq ch(2,3) show ?case
    by (intro exI[of _ "child # children"]) simp
qed


lemma offset_Suc: "i < length q \<Longrightarrow> offset q (Suc i) = offset q i + length (dependencies (q ! i))"
  by (simp add: offset_def take_Suc_conv_app_nth)

lemma offset_mono: "i \<le> j \<Longrightarrow> offset q i \<le> offset q j"
proof (induction j)
  case 0
  then show ?case by simp
next
  case (Suc j)
  show ?case
  proof (cases "i = Suc j")
    case True
    then show ?thesis by simp
  next
    case False
    with Suc have le: "offset q i \<le> offset q j" by simp
    show ?thesis
    proof (cases "j < length q")
      case True
      with le show ?thesis by (simp add: offset_Suc)
    next
      case False
      then have "take (Suc j) q = take j q" by simp
      with le show ?thesis by (simp add: offset_def)
    qed
  qed
qed

lemma offset_block: "i < j \<Longrightarrow> i < length q \<Longrightarrow> offset q i + length (dependencies (q ! i)) \<le> offset q j"
  using offset_mono[of "Suc i" j q] by (simp add: offset_Suc)

lemma map_update_same:
  assumes "f a' = f (q ! i)"
  shows "map f (q[i := a'] @ ch) = map f q @ map f ch"
proof -
  have "map f (q[i := a']) = (map f q)[i := f a']" by (simp add: map_update)
  also have "\<dots> = map f q"
  proof (cases "i < length q")
    case True
    with assms have "f a' = map f q ! i" by simp
    then show ?thesis by (metis list_update_id)
  next
    case False
    then have "length (map f q) \<le> i" by simp
    then show ?thesis by (rule list_update_beyond)
  qed
  finally show ?thesis by simp
qed

lemma offset_append:
  assumes "map (\<lambda>a. length (dependencies a)) q2 = map (\<lambda>a. length (dependencies a)) q @ rest"
    and "n \<le> length q"
  shows "offset q2 n = offset q n"
proof -
  have "map (\<lambda>a. length (dependencies a)) (take n q2) = take n (map (\<lambda>a. length (dependencies a)) q2)"
    by (simp add: take_map)
  also have "\<dots> = take n (map (\<lambda>a. length (dependencies a)) q)"
    using assms by simp
  also have "\<dots> = map (\<lambda>a. length (dependencies a)) (take n q)"
    by (simp add: take_map)
  finally show ?thesis by (simp add: offset_def)
qed

lemma graph_inv_step:
  assumes inv: "graph_inv E entry ID0 i q ID" and i: "i < length q"
    and q1: "q1 = q[i := (q ! i)\<lparr>mapping := Some []\<rparr>]"
    and fe: "forEach_dependencies E i (path_dirname E (filename (q1 ! i))) (dependencies (q1 ! i)) q1 ID = (Inr q2, ID2)"
  shows "graph_inv E entry ID0 (Suc i) q2 ID2"
proof -
  let ?ds = "dependencies (q ! i)"
  let ?dir = "path_dirname E (filename (q ! i))"
  let ?a = "(q ! i)\<lparr>mapping := Some (record_children [] ?ds ID)\<rparr>"
  have q1i: "q1 ! i = (q ! i)\<lparr>mapping := Some []\<rparr>" using q1 i by simp
  have fe': "forEach_dependencies E i ?dir ?ds q1 ID = (Inr q2, ID2)"
    using fe q1i by simp
  have "i < length q1" using q1 i by simp
  moreover have "mapping (q1 ! i) = Some []" using q1i by simp
  ultimately obtain children where
    q2a: "q2 = q1[i := (q1 ! i)\<lparr>mapping := Some (record_children [] ?ds ID)\<rparr>] @ children"
    and len: "length children = length ?ds" and ID2: "ID2 = ID + length ?ds"
    and ch: "\<forall>k<length ?ds. createAsset E (path_join E ?dir (?ds ! k)) (ID + k) = (Inr (children ! k), Suc (ID + k))"
    using forEach_Inr[OF fe'] by blast
  have q2: "q2 = q[i := ?a] @ children"
    using q2a q1 i by simp
  from inv have ile: "i \<le> length q" and lq: "length q = offset q i" and ID: "ID = ID0 + length q"
    and ids: "map id_asset q = [ID0..<ID0 + length q]" and ent: "filename (q ! 0) = entry"
    and bf: "\<forall>a\<in>set q. built_from E a" and ex: "\<forall>j<i. expanded E ID0 q j"
    by (simp_all add: graph_inv_def)
  have lq2: "length q2 = length q + length ?ds" using q2 len by simp
  have chk: "\<And>k. k < length ?ds \<Longrightarrow> id_asset (children ! k) = ID + k
        \<and> filename (children ! k) = path_join E ?dir (?ds ! k) \<and> built_from E (children ! k)"
    using ch createAsset_Inr by blast
  have deps2: "map (\<lambda>a. length (dependencies a)) q2 = map (\<lambda>a. length (dependencies a)) q @ map (\<lambda>a. length (dependencies a)) children"
    unfolding q2 by (rule map_update_same) simp
  have files2: "map filename q2 = map filename q @ map filename children"
    unfolding q2 by (rule map_update_same) simp
  have ids2: "map id_asset q2 = map id_asset q @ map id_asset children"
    unfolding q2 by (rule map_update_same) simp
  have dep2: "map dependencies q2 = map dependencies q @ map dependencies children"
    unfolding q2 by (rule map_update_same) simp
  have off: "\<And>n. n \<le> length q \<Longrightarrow> offset q2 n = offset q n"
    using offset_append[OF deps2] by simp
  have nth_old: "\<And>j. j < length q \<Longrightarrow> j \<noteq> i \<Longrightarrow> q2 ! j = q ! j"
    unfolding q2 by (simp add: nth_append)
  have nth_i: "q2 ! i = ?a" unfolding q2 using i by (simp add: nth_append)
  have nth_new: "\<And>k. k < length ?ds \<Longrightarrow> q2 ! (length q + k) = children ! k"
    unfolding q2 by (simp add: nth_append)
  have fn_old: "\<And>j. j < length q \<Longrightarrow> filename (q2 ! j) = filename (q ! j)"
    using nth_old nth_i by (metis asset.select_convs(2) asset.surjective asset.update_convs(5))
  have dp_old: "\<And>j. j < length q \<Longrightarrow> dependencies (q2 ! j) = dependencies (q ! j)"
    using nth_old nth_i by (metis asset.select_convs(3) asset.surjective asset.update_convs(5))
  have 1: "Suc i \<le> length q2" using i lq2 by simp
  have 2: "length q2 = offset q2 (Suc i)"
  proof -
    have "offset q2 (Suc i) = offset q (Suc i)" using off i by simp
    also have "\<dots> = offset q i + length ?ds" using i by (simp add: offset_Suc)
    finally show ?thesis using lq lq2 by simp
  qed
  have 3: "ID2 = ID0 + length q2" using ID2 ID lq2 by simp
  have idch: "map id_asset children = [ID..<ID + length ?ds]"
    by (rule nth_equalityI) (use len chk in auto)
  have 4: "map id_asset q2 = [ID0..<ID0 + length q2]"
  proof -
    have "[ID0..<ID0 + length q2] = [ID0..<ID0 + length q] @ [ID..<ID + length ?ds]"
      using lq2 ID by (metis add.assoc le_add1 upt_add_eq_append)
    then show ?thesis using ids2 ids idch by simp
  qed
  have 5: "filename (q2 ! 0) = entry"
  proof -
    from i have "0 < length q" by (cases q) auto
    from fn_old[OF this] ent show ?thesis by simp
  qed
  have 6: "\<forall>a\<in>set q2. built_from E a"
  proof
    fix a assume "a \<in> set q2"
    then consider "a \<in> set (q[i := ?a])" | "a \<in> set children" unfolding q2 by auto
    then show "built_from E a"
    proof cases
      case 1
      then have "a = ?a \<or> a \<in> set q" using set_update_subset_insert by fastforce
      moreover have "built_from E ?a"
      proof -
        from bf i have "built_from E (q ! i)" by simp
        then show ?thesis by (auto simp: built_from_def split: option.splits)
      qed
      ultimately show ?thesis using bf by auto
    next
      case 2
      then obtain k where "k < length children" "a = children ! k" by (auto simp: in_set_conv_nth)
      then show ?thesis using chk len by simp
    qed
  qed
  have 7: "\<forall>j<Suc i. expanded E ID0 q2 j"
  proof (intro allI impI)
    fix j assume j: "j < Suc i"
    show "expanded E ID0 q2 j"
    proof (cases "j = i")
      case True
      have o: "offset q2 i = length q" using off[of i] i lq by simp
      have m: "mapping (q2 ! i) = Some (record_children [] (dependencies (q2 ! i)) (ID0 + offset q2 i))"
        using nth_i o ID by simp
      have "\<forall>k<length (dependencies (q2 ! i)). offset q2 i + k < length q2
             \<and> filename (q2 ! (offset q2 i + k)) = resolve E (q2 ! i) (dependencies (q2 ! i) ! k)"
        using o nth_new chk lq2 nth_i by (simp add: resolve_def)
      with m True show ?thesis by (simp add: expanded_def)
    next
      case False
      with j have ji: "j < i" by simp
      with i have jq: "j < length q" by simp
      from ex ji have e: "expanded E ID0 q j" by simp
      have o: "offset q2 j = offset q j" using off jq by simp
      have qj: "q2 ! j = q ! j" using nth_old jq ji by simp
      have blk: "offset q j + length (dependencies (q ! j)) \<le> length q"
        using offset_block[OF ji jq] lq by simp
      have "\<forall>k<length (dependencies (q ! j)). offset q j + k < length q2
             \<and> filename (q2 ! (offset q j + k)) = resolve E (q ! j) (dependencies (q ! j) ! k)"
      proof (intro allI impI)
        fix k assume k: "k < length (dependencies (q ! j))"
        with blk have lt: "offset q j + k < length q" by simp
        with e k have "filename (q ! (offset q j + k)) = resolve E (q ! j) (dependencies (q ! j) ! k)"
          by (simp add: expanded_def)
        with lt fn_old lq2 show "offset q j + k < length q2
             \<and> filename (q2 ! (offset q j + k)) = resolve E (q ! j) (dependencies (q ! j) ! k)"
          by simp
      qed
      with e o qj show ?thesis by (simp add: expanded_def)
    qed
  qed
  from 1 2 3 4 5 6 7 show ?thesis by (simp add: graph_inv_def)
qed

lemma for_of_queue_inv:
  assumes "for_of_queue E i q ID = Some (Inr g, ID')" and "graph_inv E entry ID0 i q ID"
  shows "graph_inv E entry ID0 (length g) g ID'"
proof -
  have "\<forall>g ID'. y = (Inr g, ID') \<longrightarrow> graph_inv E entry ID0 i q ID \<longrightarrow> graph_inv E entry ID0 (length g) g ID'"
    if "for_of_queue E i q ID = Some y" for y
    using that
  proof (rule for_of_queue.raw_induct[rotated 1, where P = "\<lambda>E i q ID y. \<forall>g ID'. y = (Inr g, ID') \<longrightarrow> graph_inv E entry ID0 i q ID \<longrightarrow> graph_inv E entry ID0 (length g) g ID'"], goal_cases)
    case (1 loop E i q ID y)
    show ?case
    proof (intro allI impI)
      fix g ID' assume y: "y = (Inr g, ID')" and inv: "graph_inv E entry ID0 i q ID"
      show "graph_inv E entry ID0 (length g) g ID'"
      proof (cases "i < length q")
        case True
        define q1 where "q1 = q[i := (q ! i)\<lparr>mapping := Some []\<rparr>]"
        obtain r ID2 where fe: "forEach_dependencies E i (path_dirname E (filename (q1 ! i))) (dependencies (q1 ! i)) q1 ID = (r, ID2)"
          by (cases "forEach_dependencies E i (path_dirname E (filename (q1 ! i))) (dependencies (q1 ! i)) q1 ID")
        show ?thesis
        proof (cases r)
          case (Inl e)
          with y "1"(2) True fe show ?thesis
            by (simp add: Let_def q1_def)
        next
          case (Inr q2)
          with "1"(2) True fe have "loop E (i + 1) q2 ID2 = Some y"
            by (simp add: Let_def q1_def)
          moreover have "graph_inv E entry ID0 (Suc i) q2 ID2"
            using graph_inv_step[OF inv True q1_def] fe Inr by simp
          ultimately show ?thesis using "1"(1) y by simp
        qed
      next
        case False
        with "1"(2) y inv show ?thesis
          by (auto simp: graph_inv_def)
      qed
    qed
  qed
  with assms show ?thesis by blast
qed

lemma createGraph_inv:
  assumes "createGraph E entry ID0 = Some (Inr g, ID')"
  shows "graph_inv E entry ID0 (length g) g ID'"
proof -
  from assms obtain mainAsset ID1 where
    c: "createAsset E entry ID0 = (Inr mainAsset, ID1)" and l: "for_of_queue E 0 [mainAsset] ID1 = Some (Inr g, ID')"
    by (auto simp: createGraph_def split: prod.splits sum.splits)
  from createAsset_Inr[OF c] have "graph_inv E entry ID0 0 [mainAsset] ID1"
    by (simp add: graph_inv_def offset_def)
  with for_of_queue_inv[OF l] show ?thesis by simp
qed

section \<open>The graph builder: consequences of the invariant\<close>

lemma relative_not_proto: "is_relative_import r \<Longrightarrow> r \<noteq> ''__proto__''"
  by (auto simp: is_relative_import_def)

lemma last_pos_props:
  "key \<in> set ds \<Longrightarrow>
     last_pos ds key < length ds \<and> ds ! last_pos ds key = key
     \<and> (\<forall>l<length ds. last_pos ds key < l \<longrightarrow> ds ! l \<noteq> key)"
proof (induction ds)
  case Nil
  then show ?case by simp
next
  case (Cons x xs)
  show ?case
  proof (cases "key \<in> set xs")
    case True
    with Cons.IH have ih: "last_pos xs key < length xs" "xs ! last_pos xs key = key"
      "\<forall>l<length xs. last_pos xs key < l \<longrightarrow> xs ! l \<noteq> key" by auto
    have "\<forall>l<length (x # xs). last_pos (x # xs) key < l \<longrightarrow> (x # xs) ! l \<noteq> key"
    proof (intro allI impI)
      fix l assume "l < length (x # xs)" "last_pos (x # xs) key < l"
      with True obtain l' where "l = Suc l'" "l' < length xs" "last_pos xs key < l'"
        by (cases l) auto
      with ih(3) show "(x # xs) ! l \<noteq> key" by simp
    qed
    with True ih(1,2) show ?thesis by simp
  next
    case False
    with Cons.prems have "x = key" by simp
    moreover have "\<forall>l<length (x # xs). 0 < l \<longrightarrow> (x # xs) ! l \<noteq> key"
    proof (intro allI impI)
      fix l assume "l < length (x # xs)" "0 < l"
      then obtain l' where "l = Suc l'" "l' < length xs" by (cases l) auto
      with False show "(x # xs) ! l \<noteq> key" by auto
    qed
    ultimately show ?thesis using False by simp
  qed
qed

text \<open>
  The one import string whose child is not recorded is \<^verbatim>\<open>__proto__\<close>, which is no
  relative import string.
\<close>

lemma set_property_proto: "set_property m ''__proto__'' v = m"
  by (simp add: set_property_def)

lemma get_set_property:
  "get_property (set_property m r v) key =
     (if r = key \<and> r \<noteq> ''__proto__'' then Some v else get_property m key)"
  by (simp add: get_property_def set_property_def update_conv')

lemma record_children_get:
  "get_property (record_children m ds n) key =
     (if key \<in> set ds \<and> key \<noteq> ''__proto__'' then Some (n + last_pos ds key)
      else get_property m key)"
proof (induction ds arbitrary: m n)
  case Nil
  then show ?case by simp
next
  case (Cons r rs)
  show ?case
    by (auto simp: Cons.IH get_set_property)
qed


lemma graph_final:
  assumes "createGraph E entry ID0 = Some (Inr g, ID')"
  shows "g \<noteq> []" and "filename (g ! 0) = entry" and "ID' = ID0 + length g"
    and "map id_asset g = [ID0..<ID0 + length g]"
    and "\<forall>a\<in>set g. built_from E a"
    and "\<forall>i<length g. expanded E ID0 g i"
proof -
  from createGraph_inv[OF assms] have inv: "graph_inv E entry ID0 (length g) g ID'" .
  then have "length g = offset g (length g)" by (simp add: graph_inv_def)
  then show "g \<noteq> []" by (auto simp: offset_def)
  from inv show "filename (g ! 0) = entry" and "ID' = ID0 + length g"
    and "map id_asset g = [ID0..<ID0 + length g]"
    and "\<forall>a\<in>set g. built_from E a"
    and "\<forall>i<length g. expanded E ID0 g i"
    by (simp_all add: graph_inv_def)
qed

lemma graph_id_nth:
  assumes "createGraph E entry ID0 = Some (Inr g, ID')" and "n < length g"
  shows "id_asset (g ! n) = ID0 + n"
proof -
  have "id_asset (g ! n) = map id_asset g ! n" using assms(2) by simp
  also have "\<dots> = [ID0..<ID0 + length g] ! n" using graph_final(4)[OF assms(1)] by simp
  also have "\<dots> = ID0 + n" using assms(2) by simp
  finally show ?thesis .
qed

lemma graph_child:
  assumes "createGraph E entry ID0 = Some (Inr g, ID')" and "i < length g"
    and "k < length (dependencies (g ! i))"
  shows "offset g i + k < length g"
    and "filename (g ! (offset g i + k)) = resolve E (g ! i) (dependencies (g ! i) ! k)"
    and "id_asset (g ! (offset g i + k)) = ID0 + offset g i + k"
proof -
  from graph_final(6)[OF assms(1)] assms(2) have "expanded E ID0 g i" by simp
  with assms(3) show lt: "offset g i + k < length g"
    and "filename (g ! (offset g i + k)) = resolve E (g ! i) (dependencies (g ! i) ! k)"
    by (simp_all add: expanded_def)
  from graph_id_nth[OF assms(1) lt] show "id_asset (g ! (offset g i + k)) = ID0 + offset g i + k"
    by simp
qed

lemma graph_lookup:
  assumes "createGraph E entry ID0 = Some (Inr g, ID')" and "i < length g"
  shows "mapping_lookup (g ! i) key =
           (if key \<in> set (dependencies (g ! i)) \<and> key \<noteq> ''__proto__''
            then Some (ID0 + offset g i + last_pos (dependencies (g ! i)) key) else None)"
proof -
  from graph_final(6)[OF assms(1)] assms(2) have "expanded E ID0 g i" by simp
  then have "mapping (g ! i) = Some (record_children [] (dependencies (g ! i)) (ID0 + offset g i))"
    by (simp add: expanded_def)
  moreover have "get_property [] key = None" by (simp add: get_property_def)
  ultimately show ?thesis
    by (simp add: mapping_lookup_def record_children_get)
qed

lemma block_inj:
  assumes "i < length g" and "j < length g"
    and "a < length (dependencies (g ! i))" and "b < length (dependencies (g ! j))"
    and "offset g i + a = offset g j + b"
  shows "i = j \<and> a = b"
proof -
  have "\<not> i < j" using offset_block[of i j g] assms by auto
  moreover have "\<not> j < i" using offset_block[of j i g] assms by auto
  ultimately have "i = j" by simp
  with assms(5) show ?thesis by simp
qed

lemma example_graph_run: "createGraph example_env ''entry.js'' 0 = Some (Inr example_graph, 7)"
  unfolding example_graph_def by code_simp

lemma twice_graph_run: "createGraph example_env ''twice.js'' 0 = Some (Inr twice_graph, 3)"
  unfolding twice_graph_def by code_simp



section \<open>The graph builder: identities and mappings\<close>

text \<open>
  C2, as the code has it. The counter is set to 0 when the file is loaded and is never
  reset. A run of \<^verbatim>\<open>createGraph\<close> that starts with the counter at \<open>ID0\<close> and returns a
  graph of \<open>N\<close> assets gives them the identities \<open>ID0, ..., ID0 + N - 1\<close> in graph
  order, the entry asset first with \<open>ID0\<close>, and leaves the counter at \<open>ID0 + N\<close>. The
  run of the script starts at 0, so its identities are \<open>0, ..., N - 1\<close> and its entry
  has identity 0.
\<close>

theorem createGraph_identities:
  assumes "createGraph E entry ID0 = Some (Inr g, ID')"
  shows "g \<noteq> [] \<and> filename (g ! 0) = entry \<and> id_asset (g ! 0) = ID0
         \<and> map id_asset g = [ID0..<ID0 + length g] \<and> ID' = ID0 + length g"
proof -
  from graph_final(1)[OF assms] have "0 < length g" by simp
  from graph_id_nth[OF assms this] have "id_asset (g ! 0) = ID0" by simp
  with graph_final(1-4)[OF assms] show ?thesis by simp
qed

theorem createGraph_identities_witness:
  "createGraph example_env ''d.js'' 0 =
     Some (Inr [\<lparr>id_asset = 0, filename = ''d.js'', dependencies = [''./t.js''],
                  code = ''require(./t.js);'', mapping = Some [(''./t.js'', 1)]\<rparr>,
                \<lparr>id_asset = 1, filename = ''t.js'', dependencies = [],
                  code = ''done();'', mapping = Some []\<rparr>], 2)
   \<and> map id_asset
         [\<lparr>id_asset = 0, filename = ''d.js'', dependencies = [''./t.js''],
            code = ''require(./t.js);'', mapping = Some [(''./t.js'', 1)]\<rparr>,
          \<lparr>id_asset = 1, filename = ''t.js'', dependencies = [],
            code = ''done();'', mapping = Some []\<rparr>] = [0..<0 + 2]"
proof -
  have run: "createGraph example_env ''d.js'' 0 =
     Some (Inr [\<lparr>id_asset = 0, filename = ''d.js'', dependencies = [''./t.js''],
                  code = ''require(./t.js);'', mapping = Some [(''./t.js'', 1)]\<rparr>,
                \<lparr>id_asset = 1, filename = ''t.js'', dependencies = [],
                  code = ''done();'', mapping = Some []\<rparr>], 2)"
    by code_simp
  from createGraph_identities [OF run] run show ?thesis by simp
qed

text \<open>
  The claim as stated fails for a second run in the same process: after a run on
  \<^verbatim>\<open>t.js\<close> the counter is 1, and a second run on \<^verbatim>\<open>t.js\<close>, which starts with the counter
  at 1, gives its entry asset the identity 1.
\<close>

theorem second_run_counterexample:
  "createGraph example_env ''t.js'' 0 =
     Some (Inr [\<lparr>id_asset = 0, filename = ''t.js'', dependencies = [],
                  code = ''done();'', mapping = Some []\<rparr>], 1)
   \<and> createGraph example_env ''t.js'' 1 =
     Some (Inr [\<lparr>id_asset = 1, filename = ''t.js'', dependencies = [],
                  code = ''done();'', mapping = Some []\<rparr>], 2)"
  by code_simp

text \<open>
  C6. In the graph returned by \<^verbatim>\<open>createGraph\<close>, every relative import string in the
  dependencies of an asset is a key of the mapping of that asset; the value is the
  identity of an asset of the graph built from the file the string resolves to.
\<close>

theorem dependencies_have_mapping_entries:
  assumes "createGraph E entry ID0 = Some (Inr g, ID')"
    and "a \<in> set g" and "r \<in> set (dependencies a)" and "is_relative_import r"
  shows "\<exists>child\<in>set g. mapping_lookup a r = Some (id_asset child)
           \<and> filename child = resolve E a r"
proof -
  from assms(2) obtain i where i: "i < length g" and a: "a = g ! i"
    by (auto simp: in_set_conv_nth)
  let ?ds = "dependencies (g ! i)"
  let ?k = "last_pos ?ds r"
  from assms(3) a have rin: "r \<in> set ?ds" by simp
  from last_pos_props[OF rin] have k: "?k < length ?ds" and dk: "?ds ! ?k = r" by simp_all
  from graph_child[OF assms(1) i k] dk
  have c: "offset g i + ?k < length g"
    "filename (g ! (offset g i + ?k)) = resolve E (g ! i) r"
    "id_asset (g ! (offset g i + ?k)) = ID0 + offset g i + ?k" by simp_all
  from graph_lookup[OF assms(1) i, of r] rin relative_not_proto[OF assms(4)]
  have "mapping_lookup (g ! i) r = Some (ID0 + offset g i + ?k)" by simp
  with c a show ?thesis
    by (intro bexI[of _ "g ! (offset g i + ?k)"]) simp_all
qed

theorem dependencies_have_mapping_entries_witness:
  "\<exists>child\<in>set [\<lparr>id_asset = 0, filename = ''d.js'', dependencies = [''./t.js''],
                    code = ''require(./t.js);'', mapping = Some [(''./t.js'', 1)]\<rparr>,
                  \<lparr>id_asset = 1, filename = ''t.js'', dependencies = [],
                    code = ''done();'', mapping = Some []\<rparr>].
     mapping_lookup \<lparr>id_asset = 0, filename = ''d.js'', dependencies = [''./t.js''],
                      code = ''require(./t.js);'', mapping = Some [(''./t.js'', 1)]\<rparr> ''./t.js''
       = Some (id_asset child)
     \<and> filename child =
         resolve example_env \<lparr>id_asset = 0, filename = ''d.js'', dependencies = [''./t.js''],
                      code = ''require(./t.js);'', mapping = Some [(''./t.js'', 1)]\<rparr> ''./t.js''"
proof -
  have run: "createGraph example_env ''d.js'' 0 =
     Some (Inr [\<lparr>id_asset = 0, filename = ''d.js'', dependencies = [''./t.js''],
                  code = ''require(./t.js);'', mapping = Some [(''./t.js'', 1)]\<rparr>,
                \<lparr>id_asset = 1, filename = ''t.js'', dependencies = [],
                  code = ''done();'', mapping = Some []\<rparr>], 2)"
    by code_simp
  have rel: "is_relative_import ''./t.js''" by (simp add: is_relative_import_def)
  show ?thesis
    by (rule dependencies_have_mapping_entries [OF run _ _ rel]) simp_all
qed

section \<open>The graph builder: no deduplication\<close>

text \<open>
  C1. Let two importers of the returned graph (or one importer, under two different
  strings) have relative import strings that resolve to the same file. Then the graph
  holds two assets built from that file, with two different identities, and each
  importer's mapping records, under its string, the identity of one of them.
\<close>

theorem same_file_built_per_importer:
  assumes "createGraph E entry ID0 = Some (Inr g, ID')"
    and "i < length g" and "j < length g"
    and "r1 \<in> set (dependencies (g ! i))" and "r2 \<in> set (dependencies (g ! j))"
    and "is_relative_import r1" and "is_relative_import r2"
    and "i \<noteq> j \<or> r1 \<noteq> r2"
    and "resolve E (g ! i) r1 = file" and "resolve E (g ! j) r2 = file"
  shows "\<exists>c1\<in>set g. \<exists>c2\<in>set g.
           filename c1 = file \<and> filename c2 = file \<and> built_from E c1 \<and> built_from E c2
           \<and> id_asset c1 \<noteq> id_asset c2
           \<and> mapping_lookup (g ! i) r1 = Some (id_asset c1)
           \<and> mapping_lookup (g ! j) r2 = Some (id_asset c2)"
proof -
  let ?di = "dependencies (g ! i)" and ?dj = "dependencies (g ! j)"
  let ?k = "last_pos ?di r1" and ?l = "last_pos ?dj r2"
  let ?c1 = "g ! (offset g i + ?k)" and ?c2 = "g ! (offset g j + ?l)"
  from last_pos_props[OF assms(4)] have k: "?k < length ?di" and dk: "?di ! ?k = r1" by simp_all
  from last_pos_props[OF assms(5)] have l: "?l < length ?dj" and dl: "?dj ! ?l = r2" by simp_all
  from graph_child[OF assms(1,2) k] dk assms(9)
  have c1: "offset g i + ?k < length g" "filename ?c1 = file" "id_asset ?c1 = ID0 + offset g i + ?k"
    by simp_all
  from graph_child[OF assms(1,3) l] dl assms(10)
  have c2: "offset g j + ?l < length g" "filename ?c2 = file" "id_asset ?c2 = ID0 + offset g j + ?l"
    by simp_all
  have m1: "mapping_lookup (g ! i) r1 = Some (id_asset ?c1)"
    using graph_lookup[OF assms(1,2), of r1] assms(4) relative_not_proto[OF assms(6)] c1(3) by simp
  have m2: "mapping_lookup (g ! j) r2 = Some (id_asset ?c2)"
    using graph_lookup[OF assms(1,3), of r2] assms(5) relative_not_proto[OF assms(7)] c2(3) by simp
  have ne: "id_asset ?c1 \<noteq> id_asset ?c2"
  proof
    assume "id_asset ?c1 = id_asset ?c2"
    with c1(3) c2(3) have "ID0 + offset g i + ?k = ID0 + offset g j + ?l" by metis
    then have "offset g i + ?k = offset g j + ?l" by simp
    from block_inj[OF assms(2,3) k l this] have "i = j" "?k = ?l" by blast+
    with dk dl have "i = j \<and> r1 = r2" by metis
    with assms(8) show False by simp
  qed
  from c1(1) c2(1) have in1: "?c1 \<in> set g" and in2: "?c2 \<in> set g" by simp_all
  from graph_final(5)[OF assms(1)] in1 in2 have "built_from E ?c1" "built_from E ?c2" by simp_all
  with c1(2) c2(2) ne m1 m2 in1 in2 show ?thesis by blast
qed

theorem same_file_built_per_importer_witness:
  "\<exists>c1\<in>set example_graph. \<exists>c2\<in>set example_graph.
     filename c1 = ''d.js'' \<and> filename c2 = ''d.js''
     \<and> built_from example_env c1 \<and> built_from example_env c2
     \<and> id_asset c1 \<noteq> id_asset c2
     \<and> mapping_lookup (example_graph ! 1) ''./d.js'' = Some (id_asset c1)
     \<and> mapping_lookup (example_graph ! 2) ''./d.js'' = Some (id_asset c2)"
proof -
  have rel: "is_relative_import ''./d.js''" by (simp add: is_relative_import_def)
  show ?thesis
    by (rule same_file_built_per_importer [OF example_graph_run _ _ _ _ rel rel, of 1 2])
       (simp_all add: example_graph_def resolve_def example_env_def)
qed

text \<open>
  C10. Let the relative import string \<open>r\<close> stand at the positions \<open>k < l\<close> of the
  dependencies of the asset at position \<open>i\<close> of the returned graph. Then the graph
  holds a child asset for each of the two occurrences, both built from the file \<open>r\<close>
  resolves to, with different identities; the importer's mapping records under \<open>r\<close>
  the identity of the child of the last occurrence of \<open>r\<close>, which comes after \<open>k\<close>;
  and no mapping of any asset of the graph holds the identity of the child of the
  occurrence at \<open>k\<close>.
\<close>

theorem repeated_import_string:
  assumes "createGraph E entry ID0 = Some (Inr g, ID')"
    and "i < length g" and "k < l" and "l < length (dependencies (g ! i))"
    and "dependencies (g ! i) ! k = r" and "dependencies (g ! i) ! l = r"
    and "is_relative_import r"
  shows "offset g i + k < length g \<and> offset g i + l < length g
         \<and> filename (g ! (offset g i + k)) = resolve E (g ! i) r
         \<and> filename (g ! (offset g i + l)) = resolve E (g ! i) r
         \<and> id_asset (g ! (offset g i + k)) \<noteq> id_asset (g ! (offset g i + l))
         \<and> k < last_pos (dependencies (g ! i)) r
         \<and> mapping_lookup (g ! i) r
             = Some (id_asset (g ! (offset g i + last_pos (dependencies (g ! i)) r)))
         \<and> (\<forall>a\<in>set g. \<forall>key. mapping_lookup a key \<noteq> Some (id_asset (g ! (offset g i + k))))"
proof -
  let ?ds = "dependencies (g ! i)"
  let ?p = "last_pos ?ds r"
  from assms(3,4) have kl: "k < length ?ds" by simp
  from assms(4,6) have rin: "r \<in> set ?ds" by (auto simp: in_set_conv_nth)
  from last_pos_props[OF rin] have p: "?p < length ?ds" and dp: "?ds ! ?p = r"
    and lastp: "\<forall>n<length ?ds. ?p < n \<longrightarrow> ?ds ! n \<noteq> r" by simp_all
  from lastp assms(4,6) have "\<not> ?p < l" by blast
  with assms(3) have kp: "k < ?p" by simp
  from graph_child[OF assms(1,2) kl] assms(5)
  have ck: "offset g i + k < length g" "filename (g ! (offset g i + k)) = resolve E (g ! i) r"
    "id_asset (g ! (offset g i + k)) = ID0 + offset g i + k" by simp_all
  from graph_child[OF assms(1,2,4)] assms(6)
  have cl: "offset g i + l < length g" "filename (g ! (offset g i + l)) = resolve E (g ! i) r"
    "id_asset (g ! (offset g i + l)) = ID0 + offset g i + l" by simp_all
  from graph_child(3)[OF assms(1,2) p]
  have cp: "id_asset (g ! (offset g i + ?p)) = ID0 + offset g i + ?p" .
  have ne: "id_asset (g ! (offset g i + k)) \<noteq> id_asset (g ! (offset g i + l))"
    using ck(3) cl(3) assms(3) by simp
  have m: "mapping_lookup (g ! i) r = Some (id_asset (g ! (offset g i + ?p)))"
    using graph_lookup[OF assms(1,2), of r] rin relative_not_proto[OF assms(7)] cp by simp
  have unref: "\<forall>a\<in>set g. \<forall>key. mapping_lookup a key \<noteq> Some (id_asset (g ! (offset g i + k)))"
  proof (intro ballI allI notI)
    fix a key
    assume a: "a \<in> set g" and eq: "mapping_lookup a key = Some (id_asset (g ! (offset g i + k)))"
    from a obtain j where j: "j < length g" and aj: "a = g ! j" by (auto simp: in_set_conv_nth)
    let ?dj = "dependencies (g ! j)"
    from graph_lookup[OF assms(1) j, of key] eq aj ck(3)
    have kin: "key \<in> set ?dj" and v: "ID0 + offset g j + last_pos ?dj key = ID0 + offset g i + k"
      by (auto split: if_splits)
    from last_pos_props[OF kin] have q: "last_pos ?dj key < length ?dj"
      and dq: "?dj ! last_pos ?dj key = key" by simp_all
    from v have "offset g j + last_pos ?dj key = offset g i + k" by simp
    from block_inj[OF j assms(2) q kl this] have ji: "j = i" and qk: "last_pos ?dj key = k" by blast+
    from dq qk have "?dj ! k = key" by simp
    with ji assms(5) have "key = r" by simp
    with qk ji have "last_pos ?ds r = k" by simp
    with kp show False by simp
  qed
  from ck(1,2) cl(1,2) ne kp m unref show ?thesis by simp
qed

theorem repeated_import_string_witness:
  "offset twice_graph 0 + 0 < length twice_graph \<and> offset twice_graph 0 + 1 < length twice_graph
   \<and> filename (twice_graph ! (offset twice_graph 0 + 0)) = resolve example_env (twice_graph ! 0) ''./t.js''
   \<and> filename (twice_graph ! (offset twice_graph 0 + 1)) = resolve example_env (twice_graph ! 0) ''./t.js''
   \<and> id_asset (twice_graph ! (offset twice_graph 0 + 0)) \<noteq> id_asset (twice_graph ! (offset twice_graph 0 + 1))
   \<and> 0 < last_pos (dependencies (twice_graph ! 0)) ''./t.js''
   \<and> mapping_lookup (twice_graph ! 0) ''./t.js''
       = Some (id_asset (twice_graph ! (offset twice_graph 0 + last_pos (dependencies (twice_graph ! 0)) ''./t.js'')))
   \<and> \<not> (\<exists>a\<in>set twice_graph. \<exists>key.
         mapping_lookup a key = Some (id_asset (twice_graph ! (offset twice_graph 0 + 0))))"
proof -
  have rel: "is_relative_import ''./t.js''" by (simp add: is_relative_import_def)
  have deps: "dependencies (twice_graph ! 0) ! 0 = ''./t.js''" "dependencies (twice_graph ! 0) ! 1 = ''./t.js''"
    "1 < length (dependencies (twice_graph ! 0))" "0 < length twice_graph"
    by (simp_all add: twice_graph_def)
  from repeated_import_string [OF twice_graph_run deps(4) zero_less_one deps(3) deps(1) deps(2) rel]
  show ?thesis by blast
qed

section \<open>Failure on an unreadable entry file\<close>

text \<open>
  C9. When the entry file cannot be read, \<^verbatim>\<open>createAsset\<close> fails with the read error
  before the counter is touched, \<^verbatim>\<open>createGraph\<close> fails with it and returns no graph,
  and the script ends with it having printed nothing: no graph and no bundle text.
\<close>

theorem unreadable_entry_fails:
  assumes "fs_readFileSync E entry = None"
  shows "createAsset E entry ID = (Inl ReadError, ID)
         \<and> createGraph E entry ID = Some (Inl ReadError, ID)
         \<and> run_script E entry = Some (Inl ReadError, [])"
proof -
  from assms have a: "createAsset E entry ID' = (Inl ReadError, ID')" for ID'
    by (simp add: createAsset_def)
  then have g: "createGraph E entry ID' = Some (Inl ReadError, ID')" for ID'
    by (simp add: createGraph_def)
  from a g show ?thesis by (simp add: run_script_def)
qed

theorem unreadable_entry_fails_witness:
  "createAsset example_env ''missing.js'' 0 = (Inl ReadError, 0)
   \<and> createGraph example_env ''missing.js'' 0 = Some (Inl ReadError, 0)
   \<and> run_script example_env ''missing.js'' = Some (Inl ReadError, [])"
proof -
  have "fs_readFileSync example_env ''missing.js'' = None"
    by (simp add: example_env_def example_files_def)
  from unreadable_entry_fails [OF this] show ?thesis .
qed

lemma main_unreadable:
  "fs_readFileSync E ''./example/entry.js'' = None \<Longrightarrow> main E = Some (Inl ReadError, [])"
proof -
  assume "fs_readFileSync E ''./example/entry.js'' = None"
  then have "createAsset E ''./example/entry.js'' 0 = (Inl ReadError, 0)"
    by (simp add: createAsset_def)
  then show ?thesis by (simp add: main_def run_script_def createGraph_def)
qed

section \<open>The bundle text\<close>






section \<open>Termination of the graph builder\<close>













section \<open>The loader\<close>

lemma paired_append: "paired M xs \<Longrightarrow> paired M ys \<Longrightarrow> paired M (xs @ ys)"
  by (induction M xs rule: paired.induct) (auto split: option.splits list.splits event.splits)

lemma paired_counts:
  "paired M tr \<Longrightarrow> M k \<noteq> None \<Longrightarrow> executions k tr = requirings k tr"
  by (induction M tr rule: paired.induct) (auto split: option.splits list.splits event.splits)

lemma loader_log:
  "(\<forall>M k st res st'. require fuel M k st = Some (res, st') \<longrightarrow>
      (\<exists>tr. trace st' = trace st @ Required k # tr \<and> paired M (Required k # tr)
            \<and> heap_next st \<le> heap_next st'
            \<and> (M k \<noteq> None \<longrightarrow>
                 (\<exists>rest. tr = Executed k (heap_next st) # rest) \<and> heap_next st + 2 \<le> heap_next st')))
   \<and> (\<forall>M mp body st res st'. call_fn fuel M mp body st = Some (res, st') \<longrightarrow>
      (\<exists>tr. trace st' = trace st @ tr \<and> paired M tr \<and> heap_next st \<le> heap_next st'))"
proof (induction fuel)
  case 0
  then show ?case by simp
next
  case (Suc n)
  from Suc have ihr: "\<And>M k st res st'. require n M k st = Some (res, st') \<Longrightarrow>
      \<exists>tr. trace st' = trace st @ Required k # tr \<and> paired M (Required k # tr)
           \<and> heap_next st \<le> heap_next st'"
    by blast
  from Suc have ihc: "\<And>M mp body st res st'. call_fn n M mp body st = Some (res, st') \<Longrightarrow>
      \<exists>tr. trace st' = trace st @ tr \<and> paired M tr \<and> heap_next st \<le> heap_next st'"
    by blast
  have r: "\<exists>tr. trace st' = trace st @ Required k # tr \<and> paired M (Required k # tr)
            \<and> heap_next st \<le> heap_next st'
            \<and> (M k \<noteq> None \<longrightarrow>
                 (\<exists>rest. tr = Executed k (heap_next st) # rest) \<and> heap_next st + 2 \<le> heap_next st')"
    if run: "require (Suc n) M k st = Some (res, st')" for M k st res st'
  proof (cases "M k")
    case None
    with run have "st' = st\<lparr>trace := trace st @ [Required k]\<rparr>" by (simp add: Let_def)
    with None show ?thesis by simp
  next
    case (Some entry)
    obtain fn mp where entry: "entry = (fn, mp)" by (cases entry)
    let ?st2 = "st\<lparr>heap_next := heap_next st + 2,
                    trace := trace st @ [Required k, Executed k (heap_next st)]\<rparr>"
    from run Some entry have "call_fn n M mp (fn (heap_next st)) ?st2 = Some (res, st')"
      by (simp add: Let_def)
    from ihc [OF this] obtain tr where
      tr: "trace st' = trace ?st2 @ tr" "paired M tr" "heap_next ?st2 \<le> heap_next st'"
      by blast
    from tr Some show ?thesis
      by (intro exI [of _ "Executed k (heap_next st) # tr"]) simp
  qed
  have c: "\<exists>tr. trace st' = trace st @ tr \<and> paired M tr \<and> heap_next st \<le> heap_next st'"
    if run: "call_fn (Suc n) M mp body st = Some (res, st')" for M mp body st res st'
  proof (cases body)
    case (Return v)
    with run show ?thesis by simp
  next
    case (Throw e)
    with run show ?thesis by simp
  next
    case (CallRequire name k)
    show ?thesis
    proof (cases "get_property mp name")
      case None
      with run CallRequire have "call_fn n M mp (k (Inl TypeError)) st = Some (res, st')" by simp
      from ihc [OF this] show ?thesis .
    next
      case (Some ident)
      with run CallRequire obtain outcome st1 where
        r1: "require n M ident st = Some (outcome, st1)"
        and c1: "call_fn n M mp (k outcome) st1 = Some (res, st')"
        by (auto split: option.splits)
      from ihr [OF r1] obtain t1 where
        t1: "trace st1 = trace st @ Required ident # t1" "paired M (Required ident # t1)"
          "heap_next st \<le> heap_next st1" by blast
      from ihc [OF c1] obtain t2 where
        t2: "trace st' = trace st1 @ t2" "paired M t2" "heap_next st1 \<le> heap_next st'" by blast
      from t1 t2 paired_append [OF t1(2) t2(2)] show ?thesis
        by (intro exI [of _ "(Required ident # t1) @ t2"]) simp
    qed
  qed
  from r c show ?case by blast
qed

lemma require_log:
  assumes "require fuel M k st = Some (res, st')"
  shows "\<exists>tr. trace st' = trace st @ Required k # tr \<and> paired M (Required k # tr)
            \<and> heap_next st \<le> heap_next st'
            \<and> (M k \<noteq> None \<longrightarrow>
                 (\<exists>rest. tr = Executed k (heap_next st) # rest) \<and> heap_next st + 2 \<le> heap_next st')"
  using loader_log [of fuel] assms by blast

lemma executions_append: "executions k (xs @ ys) = executions k xs + executions k ys"
  by (induction k xs rule: executions.induct) simp_all

lemma twice_table_run:
  "run_bundle 10 twice_table = Some (Inr (ObjectRef 0), \<lparr>heap_next = 6, trace = twice_trace\<rparr>)"
  unfolding twice_trace_def by code_simp

lemma loader_history_free:
  "(\<forall>M k st res st'. require fuel M k st = Some (res, st') \<longrightarrow>
      (\<exists>ev. trace st' = trace st @ ev
            \<and> (\<forall>tr. require fuel M k (st\<lparr>trace := tr\<rparr>) = Some (res, st'\<lparr>trace := tr @ ev\<rparr>))))
   \<and> (\<forall>M mp body st res st'. call_fn fuel M mp body st = Some (res, st') \<longrightarrow>
      (\<exists>ev. trace st' = trace st @ ev
            \<and> (\<forall>tr. call_fn fuel M mp body (st\<lparr>trace := tr\<rparr>) = Some (res, st'\<lparr>trace := tr @ ev\<rparr>))))"
proof (induction fuel)
  case 0
  then show ?case by simp
next
  case (Suc n)
  from Suc have ihr: "\<And>M k st res st'. require n M k st = Some (res, st') \<Longrightarrow>
      \<exists>ev. trace st' = trace st @ ev
           \<and> (\<forall>tr. require n M k (st\<lparr>trace := tr\<rparr>) = Some (res, st'\<lparr>trace := tr @ ev\<rparr>))"
    by blast
  from Suc have ihc: "\<And>M mp body st res st'. call_fn n M mp body st = Some (res, st') \<Longrightarrow>
      \<exists>ev. trace st' = trace st @ ev
           \<and> (\<forall>tr. call_fn n M mp body (st\<lparr>trace := tr\<rparr>) = Some (res, st'\<lparr>trace := tr @ ev\<rparr>))"
    by blast
  have r: "\<exists>ev. trace st' = trace st @ ev
            \<and> (\<forall>tr. require (Suc n) M k (st\<lparr>trace := tr\<rparr>) = Some (res, st'\<lparr>trace := tr @ ev\<rparr>))"
    if run: "require (Suc n) M k st = Some (res, st')" for M k st res st'
  proof (cases "M k")
    case None
    with run have "st' = st\<lparr>trace := trace st @ [Required k]\<rparr>" "res = Inl TypeError"
      by (simp_all add: Let_def)
    with None show ?thesis
      by (intro exI [of _ "[Required k]"]) (simp add: Let_def)
  next
    case (Some entry)
    obtain fn mp where entry: "entry = (fn, mp)" by (cases entry)
    let ?st2 = "st\<lparr>heap_next := heap_next st + 2,
                    trace := trace st @ [Required k, Executed k (heap_next st)]\<rparr>"
    from run Some entry have "call_fn n M mp (fn (heap_next st)) ?st2 = Some (res, st')"
      by (simp add: Let_def)
    from ihc [OF this] obtain ev where
      ev: "trace st' = trace ?st2 @ ev"
        "\<And>tr. call_fn n M mp (fn (heap_next st)) (?st2\<lparr>trace := tr\<rparr>) = Some (res, st'\<lparr>trace := tr @ ev\<rparr>)"
      by blast
    have "require (Suc n) M k (st\<lparr>trace := tr\<rparr>)
            = Some (res, st'\<lparr>trace := tr @ [Required k, Executed k (heap_next st)] @ ev\<rparr>)" for tr
      using ev(2) [of "tr @ [Required k, Executed k (heap_next st)]"] Some entry
      by (simp add: Let_def)
    with ev(1) show ?thesis
      by (intro exI [of _ "[Required k, Executed k (heap_next st)] @ ev"]) simp
  qed
  have c: "\<exists>ev. trace st' = trace st @ ev
            \<and> (\<forall>tr. call_fn (Suc n) M mp body (st\<lparr>trace := tr\<rparr>) = Some (res, st'\<lparr>trace := tr @ ev\<rparr>))"
    if run: "call_fn (Suc n) M mp body st = Some (res, st')" for M mp body st res st'
  proof (cases body)
    case (Return v)
    with run show ?thesis by (intro exI [of _ "[]"]) auto
  next
    case (Throw e)
    with run show ?thesis by (intro exI [of _ "[]"]) auto
  next
    case (CallRequire name k)
    show ?thesis
    proof (cases "get_property mp name")
      case None
      with run CallRequire have "call_fn n M mp (k (Inl TypeError)) st = Some (res, st')" by simp
      from ihc [OF this] None CallRequire show ?thesis by simp
    next
      case (Some ident)
      with run CallRequire obtain outcome st1 where
        r1: "require n M ident st = Some (outcome, st1)"
        and c1: "call_fn n M mp (k outcome) st1 = Some (res, st')"
        by (auto split: option.splits)
      from ihr [OF r1] obtain e1 where
        e1: "trace st1 = trace st @ e1"
          "\<And>tr. require n M ident (st\<lparr>trace := tr\<rparr>) = Some (outcome, st1\<lparr>trace := tr @ e1\<rparr>)"
        by blast
      from ihc [OF c1] obtain e2 where
        e2: "trace st' = trace st1 @ e2"
          "\<And>tr. call_fn n M mp (k outcome) (st1\<lparr>trace := tr\<rparr>) = Some (res, st'\<lparr>trace := tr @ e2\<rparr>)"
        by blast
      have "call_fn (Suc n) M mp body (st\<lparr>trace := tr\<rparr>) = Some (res, st'\<lparr>trace := tr @ e1 @ e2\<rparr>)" for tr
        using e1(2) [of tr] e2(2) [of "tr @ e1"] Some CallRequire by simp
      with e1(1) e2(1) show ?thesis
        by (intro exI [of _ "e1 @ e2"]) simp
    qed
  qed
  from r c show ?case by blast
qed

lemma require_history_free:
  assumes "require fuel M k st = Some (res, st')"
  shows "\<exists>ev. trace st' = trace st @ ev
           \<and> (\<forall>tr. require fuel M k (st\<lparr>trace := tr\<rparr>) = Some (res, st'\<lparr>trace := tr @ ev\<rparr>))"
  using loader_history_free [of fuel] assms by blast

text \<open>
  C3. Let \<^verbatim>\<open>require\<close> have been called for an identity of the table and have
  returned, and let it be called for the same identity again, in the state the first
  call left or in any later state of the run. Then the second call makes an exports
  object of its own, not the one of the first call, and calls the wrapped function on
  it again: the log gets a further execution of the body, and the outcome of the call
  is the outcome of the body. A body that returns gives its value, a body that throws
  gives its exception, and a body that imports makes its import again and goes on with
  what the import gives. The outcome does not depend on what was required before: in
  a state with any other log the call returns the same value and adds the same events,
  so no call is answered from an earlier one.
\<close>

theorem require_again_executes_again:
  assumes "M k = Some (fn, mp)"
    and "require f1 M k st0 = Some (r1, st1)"
    and "heap_next st1 \<le> heap_next st"
    and "require f2 M k st = Some (r2, st2)"
  shows "heap_next st0 < heap_next st
         \<and> (\<exists>ev. trace st2 = trace st @ Required k # Executed k (heap_next st) # ev)
         \<and> executions k (trace st) + 1 \<le> executions k (trace st2)
         \<and> (\<exists>ev. trace st2 = trace st @ ev
               \<and> (\<forall>tr. require f2 M k (st\<lparr>trace := tr\<rparr>) = Some (r2, st2\<lparr>trace := tr @ ev\<rparr>)))
         \<and> (\<forall>v. fn (heap_next st) = Return v \<longrightarrow>
               r2 = Inr v \<and> heap_next st2 = heap_next st + 2
               \<and> trace st2 = trace st @ [Required k, Executed k (heap_next st)])
         \<and> (\<forall>e. fn (heap_next st) = Throw e \<longrightarrow>
               r2 = Inl e \<and> heap_next st2 = heap_next st + 2
               \<and> trace st2 = trace st @ [Required k, Executed k (heap_next st)])
         \<and> (\<forall>name c j. fn (heap_next st) = CallRequire name c \<longrightarrow> get_property mp name = Some j \<longrightarrow>
               (\<exists>f outcome stj ev.
                  require f M j (st\<lparr>heap_next := heap_next st + 2,
                                    trace := trace st @ [Required k, Executed k (heap_next st)]\<rparr>)
                    = Some (outcome, stj)
                  \<and> trace stj = trace st @ Required k # Executed k (heap_next st) # Required j # ev
                  \<and> call_fn f M mp (c outcome) stj = Some (r2, st2)))
         \<and> (\<forall>name c. fn (heap_next st) = CallRequire name c \<longrightarrow> get_property mp name = None \<longrightarrow>
               (\<exists>f. call_fn f M mp (c (Inl TypeError))
                      (st\<lparr>heap_next := heap_next st + 2,
                          trace := trace st @ [Required k, Executed k (heap_next st)]\<rparr>)
                    = Some (r2, st2)))"
proof -
  let ?after = "st\<lparr>heap_next := heap_next st + 2,
                    trace := trace st @ [Required k, Executed k (heap_next st)]\<rparr>"
  from assms(1) have k: "M k \<noteq> None" by simp
  from require_log [OF assms(2)] k have "heap_next st0 + 2 \<le> heap_next st1" by blast
  with assms(3) have 1: "heap_next st0 < heap_next st" by simp
  from require_log [OF assms(4)] k obtain ev where
    ev: "trace st2 = trace st @ Required k # Executed k (heap_next st) # ev" by blast
  then have 2: "\<exists>ev. trace st2 = trace st @ Required k # Executed k (heap_next st) # ev" ..
  have 3: "executions k (trace st) + 1 \<le> executions k (trace st2)"
    unfolding ev by (simp add: executions_append)
  note 4 = require_history_free [OF assms(4)]
  obtain f where f2: "f2 = Suc f" using assms(4) by (cases f2) simp_all
  have body: "call_fn f M mp (fn (heap_next st)) ?after = Some (r2, st2)"
    using assms(1,4) by (simp add: f2 Let_def)
  have 5: "\<forall>v. fn (heap_next st) = Return v \<longrightarrow>
               r2 = Inr v \<and> heap_next st2 = heap_next st + 2
               \<and> trace st2 = trace st @ [Required k, Executed k (heap_next st)]"
  proof (intro allI impI)
    fix v assume "fn (heap_next st) = Return v"
    with body have "call_fn f M mp (Return v) ?after = Some (r2, st2)" by simp
    then show "r2 = Inr v \<and> heap_next st2 = heap_next st + 2
               \<and> trace st2 = trace st @ [Required k, Executed k (heap_next st)]"
      by (cases f) auto
  qed
  have 6: "\<forall>e. fn (heap_next st) = Throw e \<longrightarrow>
               r2 = Inl e \<and> heap_next st2 = heap_next st + 2
               \<and> trace st2 = trace st @ [Required k, Executed k (heap_next st)]"
  proof (intro allI impI)
    fix e assume "fn (heap_next st) = Throw e"
    with body have "call_fn f M mp (Throw e) ?after = Some (r2, st2)" by simp
    then show "r2 = Inl e \<and> heap_next st2 = heap_next st + 2
               \<and> trace st2 = trace st @ [Required k, Executed k (heap_next st)]"
      by (cases f) auto
  qed
  have 7: "\<forall>name c j. fn (heap_next st) = CallRequire name c \<longrightarrow> get_property mp name = Some j \<longrightarrow>
               (\<exists>f outcome stj ev.
                  require f M j ?after = Some (outcome, stj)
                  \<and> trace stj = trace st @ Required k # Executed k (heap_next st) # Required j # ev
                  \<and> call_fn f M mp (c outcome) stj = Some (r2, st2))"
  proof (intro allI impI)
    fix name c j
    assume b: "fn (heap_next st) = CallRequire name c" and g: "get_property mp name = Some j"
    from body b have cf: "call_fn f M mp (CallRequire name c) ?after = Some (r2, st2)" by simp
    then obtain f' where f: "f = Suc f'" by (cases f) simp_all
    from cf g obtain outcome stj where
      rj: "require f' M j ?after = Some (outcome, stj)"
      and cj: "call_fn f' M mp (c outcome) stj = Some (r2, st2)"
      unfolding f by (auto split: option.splits)
    from require_log [OF rj] obtain tr where "trace stj = trace ?after @ Required j # tr" by blast
    then have "trace stj = trace st @ Required k # Executed k (heap_next st) # Required j # tr"
      by simp
    with rj cj show "\<exists>f outcome stj ev.
                  require f M j ?after = Some (outcome, stj)
                  \<and> trace stj = trace st @ Required k # Executed k (heap_next st) # Required j # ev
                  \<and> call_fn f M mp (c outcome) stj = Some (r2, st2)"
      by blast
  qed
  have 8: "\<forall>name c. fn (heap_next st) = CallRequire name c \<longrightarrow> get_property mp name = None \<longrightarrow>
               (\<exists>f. call_fn f M mp (c (Inl TypeError)) ?after = Some (r2, st2))"
  proof (intro allI impI)
    fix name c
    assume b: "fn (heap_next st) = CallRequire name c" and g: "get_property mp name = None"
    from body b have cf: "call_fn f M mp (CallRequire name c) ?after = Some (r2, st2)" by simp
    then obtain f' where f: "f = Suc f'" by (cases f) simp_all
    from cf g have "call_fn f' M mp (c (Inl TypeError)) ?after = Some (r2, st2)"
      unfolding f by simp
    then show "\<exists>f. call_fn f M mp (c (Inl TypeError)) ?after = Some (r2, st2)" ..
  qed
  from 1 2 3 4 5 6 7 8 show ?thesis by (intro conjI)
qed

theorem require_again_executes_again_witness:
  "require 10 twice_table 0 \<lparr>heap_next = 0, trace = []\<rparr>
     = Some (Inr (ObjectRef 0), \<lparr>heap_next = 6, trace = twice_trace\<rparr>)
   \<and> require 10 twice_table 0 \<lparr>heap_next = 6, trace = twice_trace\<rparr>
     = Some (Inr (ObjectRef 6),
             \<lparr>heap_next = 12,
                trace = twice_trace @ [Required 0, Executed 0 6, Required 2, Executed 2 8,
                                       Required 2, Executed 2 10]\<rparr>)
   \<and> heap_next \<lparr>heap_next = 0, trace = []\<rparr> < heap_next \<lparr>heap_next = 6, trace = twice_trace\<rparr>
   \<and> executions 0 (trace \<lparr>heap_next = 6, trace = twice_trace\<rparr>) + 1
       \<le> executions 0
            (trace \<lparr>heap_next = 12,
                     trace = twice_trace @ [Required 0, Executed 0 6, Required 2, Executed 2 8,
                                            Required 2, Executed 2 10]\<rparr>)
   \<and> (\<exists>f outcome stj ev.
         require f twice_table 2
           (\<lparr>heap_next = 6, trace = twice_trace\<rparr>
              \<lparr>heap_next := heap_next \<lparr>heap_next = 6, trace = twice_trace\<rparr> + 2,
               trace := trace \<lparr>heap_next = 6, trace = twice_trace\<rparr>
                          @ [Required 0, Executed 0 (heap_next \<lparr>heap_next = 6, trace = twice_trace\<rparr>)]\<rparr>)
           = Some (outcome, stj)
         \<and> trace stj = trace \<lparr>heap_next = 6, trace = twice_trace\<rparr>
                          @ Required 0 # Executed 0 (heap_next \<lparr>heap_next = 6, trace = twice_trace\<rparr>)
                            # Required 2 # ev
         \<and> call_fn f twice_table [(''./t.js'', 2)]
              (CallRequire ''./t.js'' (\<lambda>_. Return (ObjectRef 6))) stj
           = Some (Inr (ObjectRef 6),
                   \<lparr>heap_next = 12,
                      trace = twice_trace @ [Required 0, Executed 0 6, Required 2, Executed 2 8,
                                             Required 2, Executed 2 10]\<rparr>))"
proof -
  let ?s0 = "\<lparr>heap_next = 0, trace = []\<rparr>"
  let ?s1 = "\<lparr>heap_next = 6, trace = twice_trace\<rparr>"
  let ?s2 = "\<lparr>heap_next = 12,
                trace = twice_trace @ [Required 0, Executed 0 6, Required 2, Executed 2 8,
                                       Required 2, Executed 2 10]\<rparr>"
  let ?fn = "\<lambda>exports. CallRequire ''./t.js''
               (\<lambda>_. CallRequire ''./t.js'' (\<lambda>_. Return (ObjectRef exports)))"
  have m: "twice_table 0 = Some (?fn, [(''./t.js'', 2)])"
    by (simp add: twice_table_def)
  have a: "require 10 twice_table 0 ?s0 = Some (Inr (ObjectRef 0), ?s1)"
    unfolding twice_trace_def by code_simp
  have b: "require 10 twice_table 0 ?s1 = Some (Inr (ObjectRef 6), ?s2)"
    unfolding twice_trace_def by code_simp
  have le: "heap_next ?s1 \<le> heap_next ?s1" by simp
  note t = require_again_executes_again [OF m a le b]
  note t1 = t [THEN conjunct1]
  note t3 = t [THEN conjunct2, THEN conjunct2, THEN conjunct1]
  note t7 = t [THEN conjunct2, THEN conjunct2, THEN conjunct2, THEN conjunct2, THEN conjunct2,
               THEN conjunct2, THEN conjunct1, rule_format,
               of "''./t.js''" "\<lambda>_. CallRequire ''./t.js'' (\<lambda>_. Return (ObjectRef 6))" 2]
  have g: "get_property [(''./t.js'', 2)] ''./t.js'' = Some 2" by (simp add: get_property_def)
  have body: "?fn (heap_next ?s1)
                = CallRequire ''./t.js'' (\<lambda>_. CallRequire ''./t.js'' (\<lambda>_. Return (ObjectRef 6)))"
    by simp
  from a b t1 t3 t7 [OF body g] show ?thesis by (intro conjI)
qed

text \<open>
  C4, as the code has it. In a run of the bundle that returns, the first event is the
  call \<^verbatim>\<open>require(0)\<close>; every call of \<^verbatim>\<open>require\<close> for an identity of the table is
  followed at once by one execution of the body of that module, and no body is
  executed without such a call before it. So the body of a module is executed as many
  times as its identity is required: not at all when no call reaches it, and again at
  every further call.
\<close>

theorem bodies_run_once_per_require:
  assumes "run_bundle fuel M = Some (res, st)"
  shows "(\<exists>tr. trace st = Required 0 # tr) \<and> paired M (trace st)
         \<and> (\<forall>k. M k \<noteq> None \<longrightarrow> executions k (trace st) = requirings k (trace st))"
proof -
  from assms have "require fuel M 0 \<lparr>heap_next = 0, trace = []\<rparr> = Some (res, st)"
    by (simp add: run_bundle_def)
  from require_log [OF this] obtain tr where
    tr: "trace st = Required 0 # tr" and p: "paired M (Required 0 # tr)" by auto
  from tr p have "paired M (trace st)" by simp
  with tr paired_counts show ?thesis by blast
qed

theorem bodies_run_once_per_require_witness:
  "run_bundle 10 twice_table = Some (Inr (ObjectRef 0), \<lparr>heap_next = 6, trace = twice_trace\<rparr>)
   \<and> (\<exists>tr. twice_trace = Required 0 # tr) \<and> paired twice_table twice_trace
   \<and> executions 2 twice_trace = requirings 2 twice_trace
   \<and> executions 1 twice_trace = requirings 1 twice_trace"
proof -
  have "twice_table 2 \<noteq> None" "twice_table 1 \<noteq> None" by (simp_all add: twice_table_def)
  with bodies_run_once_per_require [OF twice_table_run] twice_table_run show ?thesis by simp
qed

text \<open>
  The claim as stated fails on that table: in its run the body of module 2 is executed
  twice, once for each \<^verbatim>\<open>require\<close> of module 0, and the body of module 1, which no
  mapping refers to, is not executed, whatever the other bodies do.
\<close>

theorem body_not_once_counterexample:
  "run_bundle 10 twice_table = Some (Inr (ObjectRef 0), \<lparr>heap_next = 6, trace = twice_trace\<rparr>)
   \<and> twice_table 1 \<noteq> None \<and> twice_table 2 \<noteq> None
   \<and> executions 2 twice_trace = 2 \<and> executions 1 twice_trace = 0"
proof -
  have "executions 2 twice_trace = 2" "executions 1 twice_trace = 0"
    by (simp_all add: twice_trace_def)
  moreover have "twice_table 1 \<noteq> None" "twice_table 2 \<noteq> None"
    by (simp_all add: twice_table_def)
  ultimately show ?thesis using twice_table_run by simp
qed

end
